theory Spec2Isabelle
  imports Main
begin

section \<open>Python values and strings\<close>

text \<open>
  The program is \<^verbatim>\<open>src/main.py\<close>: a Streamlit page that keeps a to-do list in the
  session state, replaces it with whatever JSON the language model returns
  (\<^verbatim>\<open>main\<close>, lines 154-162) and renders it recursively (\<^verbatim>\<open>render_tasks\<close>, lines 45-104).

  A Python \<^verbatim>\<open>str\<close> is a \<open>string\<close> holding its UTF-8 encoding: a code point below 128 is
  one \<open>char\<close>, any other code point is the two to four bytes of its encoding (a lone
  surrogate is written with the three-byte pattern of its number). The markers the program
  searches for and the JSON syntax are ASCII, so searching bytes and searching code points
  agree.

  The values \<^verbatim>\<open>json.loads\<close> builds and the session state holds are the type \<open>pyval\<close>. A
  \<^verbatim>\<open>float\<close> keeps the text it was read from; the program computes with no float, and asks
  of one only whether it is zero (\<open>py_truthy\<close> below). A \<^verbatim>\<open>dict\<close> is the list of its items in insertion order,
  with distinct keys.
\<close>

datatype pyval =
    PNone
  | PBool bool
  | PInt int
  | PFloat string
  | PStr string
  | PList "pyval list"
  | PDict "(string \<times> pyval) list"

type_synonym pydict = "(string \<times> pyval) list"

text \<open>The exceptions the program meets. A function that may raise returns \<open>pyerror + 'a\<close>,
  \<open>Inl\<close> the exception raised.\<close>

datatype pyerror =
  JSONDecodeError | StopIteration | ValueError | RecursionError | AttributeError | KeyError

text \<open>
  What the decoder's result depends on besides the text, in CPython 3.11: the limit on the
  digits of an integer literal (\<^verbatim>\<open>sys.get_int_max_str_digits()\<close>, 4300 unless changed, 0 for
  no limit), and the levels of recursion left when the scanner of \<^verbatim>\<open>json.loads\<close> starts (the
  recursion limit less the depth of the call stack there). Entering an array or an object
  takes one level.
\<close>

record interpreter =
  max_str_digits :: nat
  recursion_budget :: nat

text \<open>\<^verbatim>\<open>k in d\<close>, \<^verbatim>\<open>d.get(k, default)\<close> and \<^verbatim>\<open>d[k] = v\<close> (a new key goes last, an old key keeps
  its place).\<close>

definition dict_has :: "pydict \<Rightarrow> string \<Rightarrow> bool" where
  "dict_has d k = (map_of d k \<noteq> None)"

definition dict_get :: "pydict \<Rightarrow> string \<Rightarrow> pyval \<Rightarrow> pyval" where
  "dict_get d k dflt = (case map_of d k of None \<Rightarrow> dflt | Some v \<Rightarrow> v)"

fun dict_set :: "pydict \<Rightarrow> string \<Rightarrow> pyval \<Rightarrow> pydict" where
  "dict_set [] k v = [(k, v)]"
| "dict_set ((k', v') # d) k v = (if k' = k then (k, v) # d else (k', v') # dict_set d k v)"

text \<open>\<^verbatim>\<open>dict(pairs)\<close>: the pairs are stored from left to right.\<close>

definition dict_of_pairs :: "(string \<times> pyval) list \<Rightarrow> pydict" where
  "dict_of_pairs pairs = foldl (\<lambda>d (k, v). dict_set d k v) [] pairs"

subsection \<open>\<^verbatim>\<open>str.strip\<close> and \<^verbatim>\<open>str.replace\<close>\<close>

fun startswith :: "string \<Rightarrow> string \<Rightarrow> bool" where
  "startswith s [] = True"
| "startswith [] (p # ps) = False"
| "startswith (c # cs) (p # ps) = (c = p \<and> startswith cs ps)"

text \<open>The code points for which \<^verbatim>\<open>str.isspace\<close> holds, each in UTF-8: U+0009-U+000D,
  U+001C-U+0020, U+0085, U+00A0, U+1680, U+2000-U+200A, U+2028, U+2029, U+202F, U+205F,
  U+3000.\<close>

definition py_whitespace :: "string list" where
  "py_whitespace =
    [[CHR 0x09], [CHR 0x0A], [CHR 0x0B], [CHR 0x0C], [CHR 0x0D],
     [CHR 0x1C], [CHR 0x1D], [CHR 0x1E], [CHR 0x1F], [CHR 0x20],
     [CHR 0xC2, CHR 0x85], [CHR 0xC2, CHR 0xA0], [CHR 0xE1, CHR 0x9A, CHR 0x80],
     [CHR 0xE2, CHR 0x80, CHR 0x80], [CHR 0xE2, CHR 0x80, CHR 0x81],
     [CHR 0xE2, CHR 0x80, CHR 0x82], [CHR 0xE2, CHR 0x80, CHR 0x83],
     [CHR 0xE2, CHR 0x80, CHR 0x84], [CHR 0xE2, CHR 0x80, CHR 0x85],
     [CHR 0xE2, CHR 0x80, CHR 0x86], [CHR 0xE2, CHR 0x80, CHR 0x87],
     [CHR 0xE2, CHR 0x80, CHR 0x88], [CHR 0xE2, CHR 0x80, CHR 0x89],
     [CHR 0xE2, CHR 0x80, CHR 0x8A], [CHR 0xE2, CHR 0x80, CHR 0xA8],
     [CHR 0xE2, CHR 0x80, CHR 0xA9], [CHR 0xE2, CHR 0x80, CHR 0xAF],
     [CHR 0xE2, CHR 0x81, CHR 0x9F], [CHR 0xE3, CHR 0x80, CHR 0x80]]"

text \<open>Dropping from the front of \<open>s\<close> every leading occurrence of one of the patterns.\<close>

function strip_front :: "string list \<Rightarrow> string \<Rightarrow> string" where
  "strip_front pats s =
     (case find (\<lambda>p. p \<noteq> [] \<and> startswith s p) pats of
        None \<Rightarrow> s
      | Some p \<Rightarrow> strip_front pats (drop (length p) s))"
  by pat_completeness auto

lemma startswith_length: "startswith s p \<Longrightarrow> length p \<le> length s"
  by (induction s p rule: startswith.induct) auto

termination strip_front
proof (relation "measure (\<lambda>(pats, s). length s)")
  show "wf (measure (\<lambda>(pats, s). length s))" by simp
next
  fix pats :: "string list" and s p :: string
  assume "find (\<lambda>p. p \<noteq> [] \<and> startswith s p) pats = Some p"
  then have "p \<noteq> []" and "startswith s p"
    by (auto simp: find_Some_iff)
  then have "length (drop (length p) s) < length s"
    using startswith_length [of s p] by (cases p) auto
  then show "((pats, drop (length p) s), (pats, s)) \<in> measure (\<lambda>(pats, s). length s)"
    by simp
qed

declare strip_front.simps [simp del]

text \<open>\<^verbatim>\<open>s.strip()\<close>: whitespace goes from both ends. From the right the encoded code points
  are matched backwards.\<close>

definition py_strip :: "string \<Rightarrow> string" where
  "py_strip s = rev (strip_front (map rev py_whitespace) (rev (strip_front py_whitespace s)))"

text \<open>\<^verbatim>\<open>s.replace(old, new)\<close> for a non-empty \<open>old\<close> (the program's two patterns are the
  fence markers): the occurrences are found from left to right and do not overlap.\<close>

fun py_replace :: "string \<Rightarrow> string \<Rightarrow> string \<Rightarrow> string" where
  "py_replace [] old new = []"
| "py_replace (c # cs) old new =
     (if old \<noteq> [] \<and> startswith (c # cs) old
      then new @ py_replace (drop (length old - 1) cs) old new
      else c # py_replace cs old new)"

section \<open>The JSON decoder of the Python library\<close>

text \<open>
  \<^verbatim>\<open>json.loads\<close> is the standard library's decoder with its default options
  (\<^verbatim>\<open>json/decoder.py\<close> and \<^verbatim>\<open>json/scanner.py\<close> of CPython, strict mode). The functions below
  follow its functions of the same names; where the library carries an index into the text,
  they carry the text that is left. Besides \<^verbatim>\<open>JSONDecodeError\<close> the decoder raises
  \<^verbatim>\<open>ValueError\<close>, when \<^verbatim>\<open>int\<close> refuses an integer literal for its length, and
  \<^verbatim>\<open>RecursionError\<close>, when the levels of recursion run out; the first exception met from
  left to right is the one raised.
\<close>

definition is_json_ws :: "char \<Rightarrow> bool" where
  "is_json_ws c = (c \<in> set [CHR 0x20, CHR 0x09, CHR 0x0A, CHR 0x0D])"

definition skip_ws :: "string \<Rightarrow> string" where
  "skip_ws s = dropWhile is_json_ws s"

definition is_digit :: "char \<Rightarrow> bool" where
  "is_digit c = (c \<in> set ''0123456789'')"

definition digit_val :: "char \<Rightarrow> nat" where
  "digit_val c = of_char c - 48"

definition int_of_digits :: "string \<Rightarrow> int" where
  "int_of_digits ds = foldl (\<lambda>n c. 10 * n + int (digit_val c)) 0 ds"

text \<open>The number pattern \<^verbatim>\<open>(-?(?:0|[1-9]\d*))(\.\d+)?([eE][-+]?\d+)?\<close>, matched at the head of
  the text: the three groups and what follows them.\<close>

definition match_integer :: "string \<Rightarrow> (string \<times> string) option" where
  "match_integer s =
     (let (sign, r) = (case s of c # cs \<Rightarrow> if c = CHR ''-'' then (''-'', cs) else ('''', s) | [] \<Rightarrow> ('''', s))
      in case r of
           [] \<Rightarrow> None
         | d # ds \<Rightarrow>
             if d = CHR ''0'' then Some (sign @ ''0'', ds)
             else if is_digit d then Some (sign @ d # takeWhile is_digit ds, dropWhile is_digit ds)
             else None)"

definition match_frac :: "string \<Rightarrow> string \<times> string" where
  "match_frac s =
     (case s of
        c # cs \<Rightarrow>
          if c = CHR ''.'' \<and> takeWhile is_digit cs \<noteq> []
          then (c # takeWhile is_digit cs, dropWhile is_digit cs) else ('''', s)
      | [] \<Rightarrow> ('''', s))"

definition match_exp :: "string \<Rightarrow> string \<times> string" where
  "match_exp s =
     (case s of
        c # cs \<Rightarrow>
          if c = CHR ''e'' \<or> c = CHR ''E'' then
            (let (sign, r) =
               (case cs of
                  x # xs \<Rightarrow> if x = CHR ''-'' \<or> x = CHR ''+'' then ([x], xs) else ('''', cs)
                | [] \<Rightarrow> ('''', cs))
             in if takeWhile is_digit r \<noteq> []
                then (c # sign @ takeWhile is_digit r, dropWhile is_digit r) else ('''', s))
          else ('''', s)
      | [] \<Rightarrow> ('''', s))"

text \<open>The groups of a match and the text after it.\<close>

definition match_number :: "string \<Rightarrow> (string \<times> string \<times> string \<times> string) option" where
  "match_number s =
     (case match_integer s of
        None \<Rightarrow> None
      | Some (integer, r1) \<Rightarrow>
          (let (frac, r2) = match_frac r1; (exp, r3) = match_exp r2
           in Some (integer, frac, exp, r3)))"

text \<open>
  \<^verbatim>\<open>int(integer)\<close>. A literal of more than 640 digits is refused with \<^verbatim>\<open>ValueError\<close> when a
  limit is set and the literal has more digits than the limit (the sign is not counted).
  \<^verbatim>\<open>float\<close> has no such limit.
\<close>

definition int_of_literal :: "string \<Rightarrow> int" where
  "int_of_literal s =
     (case s of
        c # cs \<Rightarrow> if c = CHR ''-'' then - int_of_digits cs else int_of_digits s
      | [] \<Rightarrow> 0)"

definition parse_int :: "nat \<Rightarrow> string \<Rightarrow> pyerror + pyval" where
  "parse_int max_digits integer =
     (let digits = length (filter is_digit integer)
      in if 640 < digits \<and> 0 < max_digits \<and> max_digits < digits then Inl ValueError
         else Inr (PInt (int_of_literal integer)))"

subsection \<open>Strings\<close>

definition hex_val :: "char \<Rightarrow> nat option" where
  "hex_val c =
     (if c \<in> set ''0123456789'' then Some (of_char c - 48)
      else if c \<in> set ''abcdef'' then Some (of_char c - 87)
      else if c \<in> set ''ABCDEF'' then Some (of_char c - 55)
      else None)"

text \<open>The four hexadecimal digits after \<^verbatim>\<open>\u\<close>.\<close>

definition decode_uXXXX :: "string \<Rightarrow> (nat \<times> string) option" where
  "decode_uXXXX s =
     (case s of
        a # b # c # d # r \<Rightarrow>
          (case (hex_val a, hex_val b, hex_val c, hex_val d) of
             (Some x3, Some x2, Some x1, Some x0) \<Rightarrow> Some (4096 * x3 + 256 * x2 + 16 * x1 + x0, r)
           | _ \<Rightarrow> None)
      | _ \<Rightarrow> None)"

text \<open>\<^verbatim>\<open>chr(uni)\<close> in UTF-8.\<close>

definition utf8 :: "nat \<Rightarrow> string" where
  "utf8 n =
     (if n < 0x80 then [char_of n]
      else if n < 0x800 then [char_of (0xC0 + n div 64), char_of (0x80 + n mod 64)]
      else if n < 0x10000 then
        [char_of (0xE0 + n div 4096), char_of (0x80 + n div 64 mod 64), char_of (0x80 + n mod 64)]
      else
        [char_of (0xF0 + n div 262144), char_of (0x80 + n div 4096 mod 64),
         char_of (0x80 + n div 64 mod 64), char_of (0x80 + n mod 64)])"

text \<open>The table \<^verbatim>\<open>BACKSLASH\<close> of the one-letter escapes.\<close>

definition backslash :: "char \<Rightarrow> char option" where
  "backslash e =
     (if e = CHR 0x22 then Some (CHR 0x22)
      else if e = CHR 0x5C then Some (CHR 0x5C)
      else if e = CHR ''/'' then Some (CHR ''/'')
      else if e = CHR ''b'' then Some (CHR 0x08)
      else if e = CHR ''f'' then Some (CHR 0x0C)
      else if e = CHR ''n'' then Some (CHR 0x0A)
      else if e = CHR ''r'' then Some (CHR 0x0D)
      else if e = CHR ''t'' then Some (CHR 0x09)
      else None)"

text \<open>A \<^verbatim>\<open>\u\<close> escape, the text standing after the \<^verbatim>\<open>u\<close>: a high surrogate followed by the
  escape of a low surrogate is one code point; followed by another escape it stays alone
  and that escape is read next (four digits are demanded of it at once).\<close>

definition unicode_escape :: "string \<Rightarrow> (string \<times> string) option" where
  "unicode_escape s =
     (case decode_uXXXX s of
        None \<Rightarrow> None
      | Some (uni, r) \<Rightarrow>
          if 0xD800 \<le> uni \<and> uni \<le> 0xDBFF \<and> startswith r [CHR 0x5C, CHR ''u''] then
            (case decode_uXXXX (drop 2 r) of
               None \<Rightarrow> None
             | Some (uni2, r2) \<Rightarrow>
                 if 0xDC00 \<le> uni2 \<and> uni2 \<le> 0xDFFF
                 then Some (utf8 (0x10000 + 1024 * (uni - 0xD800) + (uni2 - 0xDC00)), r2)
                 else Some (utf8 uni, r))
          else Some (utf8 uni, r))"

lemma decode_uXXXX_length: "decode_uXXXX s = Some (n, r) \<Longrightarrow> length r < length s"
  by (auto simp: decode_uXXXX_def split: list.splits option.splits)

lemma unicode_escape_length: "unicode_escape s = Some (x, r) \<Longrightarrow> length r < length s"
  by (auto simp: unicode_escape_def split: option.splits if_splits
      dest!: decode_uXXXX_length)

text \<open>\<^verbatim>\<open>scanstring\<close>, the text standing after the opening quote: the decoded string and the
  text after the closing quote. A character below U+0020 is refused (strict mode).\<close>

function scanstring :: "string \<Rightarrow> (string \<times> string) option" where
  "scanstring [] = None"
| "scanstring (c # cs) =
     (if c = CHR 0x22 then Some ([], cs)
      else if c = CHR 0x5C then
        (case cs of
           [] \<Rightarrow> None
         | esc # r \<Rightarrow>
             if esc \<noteq> CHR ''u'' then
               (case backslash esc of
                  None \<Rightarrow> None
                | Some ch \<Rightarrow> map_option (\<lambda>(content, rest). (ch # content, rest)) (scanstring r))
             else
               (case unicode_escape r of
                  None \<Rightarrow> None
                | Some (chars, r') \<Rightarrow>
                    map_option (\<lambda>(content, rest). (chars @ content, rest)) (scanstring r')))
      else if (of_char c :: nat) < 0x20 then None
      else map_option (\<lambda>(content, rest). (c # content, rest)) (scanstring cs))"
  by pat_completeness auto
termination
  by (relation "measure length") (auto dest: unicode_escape_length)

lemma scanstring_length: "scanstring s = Some (x, r) \<Longrightarrow> length r < length s"
proof (induction s arbitrary: x r rule: scanstring.induct)
  case 1
  then show ?case by simp
next
  case (2 c cs)
  then show ?case
    by (fastforce split: if_splits list.splits option.splits dest: unicode_escape_length)
qed

subsection \<open>Values, arrays and objects\<close>

text \<open>
  The scanner raises \<^verbatim>\<open>JSONDecodeError\<close> by calling the class, whose \<^verbatim>\<open>__init__\<close> is Python code
  that calls methods of \<^verbatim>\<open>str\<close>: three levels of recursion. Where fewer are left,
  \<^verbatim>\<open>RecursionError\<close> is raised in its place.
\<close>

definition raise_errmsg :: "nat \<Rightarrow> pyerror" where
  "raise_errmsg room = (if room < 3 then RecursionError else JSONDecodeError)"

text \<open>
  \<open>scan_once max_digits depth s\<close> reads one value at the head of \<open>s\<close>; \<open>depth\<close> is the number
  of levels of recursion left. Where no value starts it raises \<^verbatim>\<open>StopIteration\<close>, which
  \<^verbatim>\<open>raw_decode\<close> catches. A bracket met at depth 0 raises \<^verbatim>\<open>RecursionError\<close> before anything
  behind it is read; \<^verbatim>\<open>NaN\<close> and the infinities are looked up by a call, which takes a level
  too. \<open>JSONArray\<close> is the loop of the library's function of that name, its text standing at
  an element and \<open>vals\<close> the elements read so far; \<open>JSONObject\<close> is the loop of that function,
  its text standing after the opening quote of a key. The test \<open>length r < length s\<close> in the
  two loops is never false (lemma \<open>scan_once_length\<close> below); it is the reason why the
  recursion ends.
\<close>

lemma skip_ws_length: "length (skip_ws s) \<le> length s"
  by (simp add: skip_ws_def length_dropWhile_le)

lemma skip_ws_Cons_length: "skip_ws s = c # r \<Longrightarrow> length r < length s"
  using skip_ws_length [of s] by simp

function (sequential) scan_once :: "nat \<Rightarrow> nat \<Rightarrow> string \<Rightarrow> pyerror + (pyval \<times> string)"
  and JSONArray :: "nat \<Rightarrow> nat \<Rightarrow> string \<Rightarrow> pyval list \<Rightarrow> pyerror + (pyval \<times> string)"
  and JSONObject ::
    "nat \<Rightarrow> nat \<Rightarrow> string \<Rightarrow> (string \<times> pyval) list \<Rightarrow> pyerror + (pyval \<times> string)"
where
  "scan_once max_digits depth [] = Inl StopIteration"
| "scan_once max_digits depth (c # cs) =
     (if c = CHR 0x22 then
        (case scanstring cs of
           None \<Rightarrow> Inl (raise_errmsg depth)
         | Some (str, r) \<Rightarrow> Inr (PStr str, r))
      else if c = CHR ''{'' then
        (case depth of
           0 \<Rightarrow> Inl RecursionError
         | Suc deeper \<Rightarrow>
             (case skip_ws cs of
                [] \<Rightarrow> Inl (raise_errmsg deeper)
              | d # r \<Rightarrow>
                  if d = CHR ''}'' then Inr (PDict [], r)
                  else if d = CHR 0x22 then JSONObject max_digits deeper r []
                  else Inl (raise_errmsg deeper)))
      else if c = CHR ''['' then
        (case depth of
           0 \<Rightarrow> Inl RecursionError
         | Suc deeper \<Rightarrow>
             (case skip_ws cs of
                [] \<Rightarrow> Inl StopIteration
              | d # r \<Rightarrow>
                  if d = CHR '']'' then Inr (PList [], r)
                  else JSONArray max_digits deeper (d # r) []))
      else if startswith (c # cs) ''null'' then Inr (PNone, drop 4 (c # cs))
      else if startswith (c # cs) ''true'' then Inr (PBool True, drop 4 (c # cs))
      else if startswith (c # cs) ''false'' then Inr (PBool False, drop 5 (c # cs))
      else
        (case match_number (c # cs) of
           Some (integer, frac, exp, r) \<Rightarrow>
             if frac \<noteq> [] \<or> exp \<noteq> [] then Inr (PFloat (integer @ frac @ exp), r)
             else (case parse_int max_digits integer of Inl e \<Rightarrow> Inl e | Inr n \<Rightarrow> Inr (n, r))
         | None \<Rightarrow>
             if startswith (c # cs) ''NaN'' then
               (if depth = 0 then Inl RecursionError else Inr (PFloat ''NaN'', drop 3 (c # cs)))
             else if startswith (c # cs) ''Infinity'' then
               (if depth = 0 then Inl RecursionError else Inr (PFloat ''Infinity'', drop 8 (c # cs)))
             else if startswith (c # cs) ''-Infinity'' then
               (if depth = 0 then Inl RecursionError else Inr (PFloat ''-Infinity'', drop 9 (c # cs)))
             else Inl StopIteration))"
| "JSONArray max_digits depth s vals =
     (case scan_once max_digits depth s of
        Inl e \<Rightarrow> Inl e
      | Inr (v, r) \<Rightarrow>
          if length r < length s then
            (case skip_ws r of
               [] \<Rightarrow> Inl (raise_errmsg depth)
             | d # r' \<Rightarrow>
                 if d = CHR '']'' then Inr (PList (vals @ [v]), r')
                 else if d = CHR '','' then JSONArray max_digits depth (skip_ws r') (vals @ [v])
                 else Inl (raise_errmsg depth))
          else Inl JSONDecodeError)"
| "JSONObject max_digits depth s pairs =
     (case scanstring s of
        None \<Rightarrow> Inl (raise_errmsg depth)
      | Some (key, r) \<Rightarrow>
          (case skip_ws r of
             [] \<Rightarrow> Inl (raise_errmsg depth)
           | colon # r1 \<Rightarrow>
               if colon \<noteq> CHR '':'' then Inl (raise_errmsg depth)
               else
                 (case scan_once max_digits depth (skip_ws r1) of
                    Inl e \<Rightarrow> Inl e
                  | Inr (v, r2) \<Rightarrow>
                      if length r2 < length s then
                        (case skip_ws r2 of
                           [] \<Rightarrow> Inl (raise_errmsg depth)
                         | d # r3 \<Rightarrow>
                             if d = CHR ''}'' then Inr (PDict (dict_of_pairs (pairs @ [(key, v)])), r3)
                             else if d \<noteq> CHR '','' then Inl (raise_errmsg depth)
                             else
                               (case skip_ws r3 of
                                  [] \<Rightarrow> Inl (raise_errmsg depth)
                                | q # r4 \<Rightarrow>
                                    if q = CHR 0x22
                                    then JSONObject max_digits depth r4 (pairs @ [(key, v)])
                                    else Inl (raise_errmsg depth)))
                      else Inl JSONDecodeError)))"
  by pat_completeness auto

termination
proof (relation "measure (\<lambda>x. case x of
    Inl (max_digits, depth, s) \<Rightarrow> 2 * length s
  | Inr (Inl (max_digits, depth, s, vals)) \<Rightarrow> 2 * length s + 1
  | Inr (Inr (max_digits, depth, s, pairs)) \<Rightarrow> 2 * length s + 1)", goal_cases)
  case 1
  then show ?case by simp
next
  case (2 max_digits depth c cs deeper d r)
  then show ?case using skip_ws_Cons_length [of cs d r] by simp
next
  case (3 max_digits depth c cs deeper d r)
  then show ?case using skip_ws_length [of cs] by simp
next
  case (4 max_digits depth s vals)
  then show ?case by simp
next
  case (5 max_digits depth s vals x v r d r')
  then show ?case
    using skip_ws_Cons_length [of r d r'] skip_ws_length [of r'] by simp
next
  case (6 max_digits depth s pairs x key r colon r1)
  then show ?case
    using scanstring_length [of s key r] skip_ws_Cons_length [of r colon r1] skip_ws_length [of r1]
    by simp
next
  case (7 max_digits depth s pairs x key r colon r1 y v r2 d r3 q r4)
  then show ?case
    using skip_ws_Cons_length [of r2 d r3] skip_ws_Cons_length [of r3 q r4] by simp
qed

declare JSONArray.simps [simp del] JSONObject.simps [simp del]

text \<open>
  \<^verbatim>\<open>json.loads(s)\<close>: one value, with whitespace around it and nothing else. \<^verbatim>\<open>loads\<close> refuses
  a text that starts with the byte order mark, and calls \<^verbatim>\<open>decode\<close>, which calls \<^verbatim>\<open>raw_decode\<close>,
  which calls the scanner: \<^verbatim>\<open>raw_decode\<close>, where \<^verbatim>\<open>StopIteration\<close> becomes \<^verbatim>\<open>JSONDecodeError\<close>,
  has one more level of recursion left than the scanner has at its start, and \<^verbatim>\<open>decode\<close>,
  which refuses what follows the value, has two more.
\<close>

definition json_loads :: "interpreter \<Rightarrow> string \<Rightarrow> pyerror + pyval" where
  "json_loads ip s =
     (if startswith s [CHR 0xEF, CHR 0xBB, CHR 0xBF] then Inl JSONDecodeError
      else
        (case scan_once (max_str_digits ip) (recursion_budget ip) (skip_ws s) of
           Inl e \<Rightarrow>
             if e = StopIteration then Inl (raise_errmsg (recursion_budget ip + 1)) else Inl e
         | Inr (obj, r) \<Rightarrow>
             if skip_ws r = [] then Inr obj else Inl (raise_errmsg (recursion_budget ip + 2))))"

text \<open>Every value read takes at least one character, so the tests in the two loops
  never fail.\<close>

lemma match_integer_length: "match_integer s = Some (x, r) \<Longrightarrow> length r < length s"
  using length_dropWhile_le [of is_digit "tl (tl s)"] length_dropWhile_le [of is_digit "tl s"]
  by (auto simp: match_integer_def Let_def split: list.splits if_splits)

lemma match_frac_length: "match_frac s = (x, r) \<Longrightarrow> length r \<le> length s"
  using length_dropWhile_le [of is_digit "tl s"]
  by (auto simp: match_frac_def split: list.splits if_splits)

lemma match_exp_length: "match_exp s = (x, r) \<Longrightarrow> length r \<le> length s"
  using length_dropWhile_le [of is_digit "tl s"] length_dropWhile_le [of is_digit "tl (tl s)"]
  by (auto simp: match_exp_def Let_def split: list.splits if_splits)

lemma match_number_length:
  assumes "match_number s = Some (integer, frac, ex, r)"
  shows "length r < length s"
proof -
  from assms obtain r1 where i: "match_integer s = Some (integer, r1)"
    by (auto simp: match_number_def split: option.splits prod.splits)
  obtain frac' r2 where f: "match_frac r1 = (frac', r2)" by (cases "match_frac r1")
  obtain ex' r3 where e: "match_exp r2 = (ex', r3)" by (cases "match_exp r2")
  from assms i f e have "r = r3"
    by (auto simp: match_number_def)
  with match_integer_length [OF i] match_frac_length [OF f] match_exp_length [OF e]
  show ?thesis by simp
qed

lemma scan_once_length:
  "scan_once max_digits depth s = Inr (v, r) \<Longrightarrow> length r < length s"
  "JSONArray max_digits depth s vals = Inr (v, r) \<Longrightarrow> length r < length s"
  "JSONObject max_digits depth s pairs = Inr (v, r) \<Longrightarrow> length r < length s"
proof (induction max_digits depth s and max_digits depth s vals and max_digits depth s pairs
    arbitrary: v r and v r and v r rule: scan_once_JSONArray_JSONObject.induct)
  case (1 max_digits depth)
  then show ?case by simp
next
  case (2 max_digits depth c cs)
  show ?case
  proof (cases "c = CHR 0x22")
    case True
    with "2.prems" show ?thesis
      by (auto split: option.splits dest: scanstring_length)
  next
    case nq: False
    show ?thesis
    proof (cases "c = CHR ''{''")
      case True
      with nq "2.prems" "2.IH"(1) show ?thesis
        by (fastforce split: list.splits if_splits nat.splits dest: skip_ws_Cons_length)
    next
      case nb: False
      show ?thesis
      proof (cases "c = CHR ''[''")
        case True
        with nq nb "2.prems" "2.IH"(2) show ?thesis
          using skip_ws_length [of cs]
          by (fastforce split: list.splits if_splits nat.splits dest: skip_ws_Cons_length)
      next
        case False
        with nq nb "2.prems" show ?thesis
          by (auto split: if_splits option.splits sum.splits dest: match_number_length)
      qed
    qed
  qed
next
  case (3 max_digits depth s vals)
  note [simp] = JSONArray.simps [of max_digits depth s vals]
  from "3.prems" obtain v0 r0 where s: "scan_once max_digits depth s = Inr (v0, r0)"
    and l: "length r0 < length s"
    by (auto split: sum.splits if_splits)
  with "3.prems" obtain d r' where w: "skip_ws r0 = d # r'"
    by (auto split: list.splits)
  show ?case
  proof (cases "d = CHR '']''")
    case True
    with "3.prems" s l w skip_ws_Cons_length [OF w] show ?thesis by auto
  next
    case False
    with "3.prems" s l w have d: "d = CHR '',''"
      and j: "JSONArray max_digits depth (skip_ws r') (vals @ [v0]) = Inr (v, r)"
      by (auto split: if_splits)
    from "3.IH"(2) [OF s refl l w False d j] skip_ws_length [of r'] skip_ws_Cons_length [OF w] l
    show ?thesis by simp
  qed
next
  case (4 max_digits depth s pairs)
  note [simp] = JSONObject.simps [of max_digits depth s pairs]
  from "4.prems" obtain key r0 where k: "scanstring s = Some (key, r0)"
    by (auto split: option.splits)
  with "4.prems" obtain colon r1 where w: "skip_ws r0 = colon # r1"
    by (auto split: list.splits)
  with "4.prems" k have c: "\<not> colon \<noteq> CHR '':''"
    by (auto split: if_splits)
  with "4.prems" k w obtain v0 r2 where s: "scan_once max_digits depth (skip_ws r1) = Inr (v0, r2)"
      and l: "length r2 < length s"
    by (auto split: sum.splits if_splits)
  with "4.prems" k w c obtain d r3 where w2: "skip_ws r2 = d # r3"
    by (auto split: list.splits)
  show ?case
  proof (cases "d = CHR ''}''")
    case True
    with "4.prems" k w c s l w2 skip_ws_Cons_length [OF w2] show ?thesis by auto
  next
    case False
    with "4.prems" k w c s l w2 have d: "\<not> d \<noteq> CHR '',''"
      by (auto split: if_splits)
    with "4.prems" k w c s l w2 False obtain q r4 where w3: "skip_ws r3 = q # r4"
      by (auto split: list.splits)
    with "4.prems" k w c s l w2 False d have q: "q = CHR 0x22"
        and j: "JSONObject max_digits depth r4 (pairs @ [(key, v0)]) = Inr (v, r)"
      by (auto split: if_splits)
    from "4.IH"(2) [OF k refl w c s refl l w2 False d w3 q j]
      skip_ws_Cons_length [OF w2] skip_ws_Cons_length [OF w3] l
    show ?thesis by simp
  qed
qed

section \<open>The reply of the model: \<^verbatim>\<open>main\<close>, lines 152-162\<close>

text \<open>The two entries of \<^verbatim>\<open>st.session_state\<close>. \<^verbatim>\<open>initialize_session_state\<close> starts them as the
  empty list and \<^verbatim>\<open>None\<close>.\<close>

record session_state =
  todo_list :: pyval
  chat_response :: "string option"

definition initialize_session_state :: session_state where
  "initialize_session_state = \<lparr>todo_list = PList [], chat_response = None\<rparr>"

text \<open>Line 156: \<^verbatim>\<open>ai_response.strip().replace("```json", "").replace("```", "")\<close>.\<close>

definition json_response :: "string \<Rightarrow> string" where
  "json_response ai_response =
     py_replace (py_replace (py_strip ai_response) ''```json'' []) ''```'' []"

text \<open>
  Lines 154-162, for the value \<^verbatim>\<open>get_ai_response\<close> returned (\<open>None\<close> when the provider
  failed). \<^verbatim>\<open>if ai_response:\<close> passes over \<^verbatim>\<open>None\<close> and over the empty text. Whatever value
  \<^verbatim>\<open>json.loads\<close> returns becomes the list; \<^verbatim>\<open>JSONDecodeError\<close> stores the reply, as it came, as
  the message. The handler of line 161 catches \<^verbatim>\<open>JSONDecodeError\<close> and \<^verbatim>\<open>TypeError\<close> (which
  \<^verbatim>\<open>json.loads\<close> does not raise for a \<^verbatim>\<open>str\<close>) and nothing else: \<^verbatim>\<open>ValueError\<close> and
  \<^verbatim>\<open>RecursionError\<close> leave \<^verbatim>\<open>main\<close>, the result \<open>Inl\<close>, and the session state stays as it
  was, since line 158 was not reached.
\<close>

definition main_submit ::
  "interpreter \<Rightarrow> session_state \<Rightarrow> string option \<Rightarrow> pyerror + session_state" where
  "main_submit ip st ai_response =
     (case ai_response of
        None \<Rightarrow> Inr st
      | Some text \<Rightarrow>
          if text = [] then Inr st
          else
            (case json_loads ip (json_response text) of
               Inr new_list \<Rightarrow> Inr (st\<lparr>todo_list := new_list, chat_response := None\<rparr>)
             | Inl e \<Rightarrow>
                 if e = JSONDecodeError then Inr (st\<lparr>chat_response := Some text\<rparr>)
                 else Inl e))"

section \<open>\<^verbatim>\<open>render_tasks\<close>\<close>

text \<open>
  Streamlit is the environment of \<^verbatim>\<open>render_tasks\<close>: what a widget returns in one run of the
  script is a function of its key. \<open>checkbox u key v\<close> is \<^verbatim>\<open>st.checkbox(..., value=v, key=key)\<close>,
  the state of the box, which the user may have changed from the preselected \<open>v\<close>;
  \<open>text_input u key\<close> is the text of the field; \<open>button u key\<close> tells whether the button was
  pressed.
\<close>

record ui =
  checkbox :: "string \<Rightarrow> pyval \<Rightarrow> bool"
  text_input :: "string \<Rightarrow> string"
  button :: "string \<Rightarrow> bool"

text \<open>How a run of \<^verbatim>\<open>render_tasks\<close> ends: it returns \<^verbatim>\<open>(total_tasks, completed_tasks)\<close>, or
  \<^verbatim>\<open>st.rerun()\<close> stops the script, or an exception leaves it.\<close>

datatype outcome = Finished nat nat | Rerun | Raised pyerror

text \<open>\<^verbatim>\<open>str(n)\<close> for the numbers in a widget key, and line 60:
  \<^verbatim>\<open>task_key = f"{parent_key}_{level}_{i}"\<close>.\<close>

fun str_nat :: "nat \<Rightarrow> string" where
  "str_nat n = (if n < 10 then [char_of (48 + n)] else str_nat (n div 10) @ [char_of (48 + n mod 10)])"

definition task_key :: "string \<Rightarrow> nat \<Rightarrow> nat \<Rightarrow> string" where
  "task_key parent_key level i = parent_key @ ''_'' @ str_nat level @ ''_'' @ str_nat i"

text \<open>Lines 51-54: a string becomes a new dict, anything else is the item itself.\<close>

fun normalize_item :: "pyval \<Rightarrow> pyval" where
  "normalize_item (PStr raw_item) =
     PDict [(''task'', PStr raw_item), (''priority'', PStr ''Medium''), (''completed'', PBool False)]"
| "normalize_item raw_item = raw_item"

text \<open>What the list holds at the item's place once the body of the loop has changed \<open>item\<close>:
  the changed dict when the item is the stored dict itself, the string as it was when the
  item is the dict made from it.\<close>

definition stored :: "pyval \<Rightarrow> pydict \<Rightarrow> pyval" where
  "stored raw_item item = (case raw_item of PStr s \<Rightarrow> raw_item | _ \<Rightarrow> PDict item)"

text \<open>The fields as the body reads them: \<^verbatim>\<open>item.get('task', 'No task description')\<close> and
  \<^verbatim>\<open>item.get('priority', 'Medium')\<close> (line 57), \<^verbatim>\<open>item.get('completed', False)\<close> (line 66), and the
  subtasks when \<^verbatim>\<open>'sub_tasks' in item and isinstance(item['sub_tasks'], list)\<close> (line 95).\<close>

definition description :: "pydict \<Rightarrow> pyval" where
  "description item = dict_get item ''task'' (PStr ''No task description'')"

definition priority :: "pydict \<Rightarrow> pyval" where
  "priority item = dict_get item ''priority'' (PStr ''Medium'')"

definition completed :: "pydict \<Rightarrow> pyval" where
  "completed item = dict_get item ''completed'' (PBool False)"

definition sub_tasks :: "pydict \<Rightarrow> pyval list option" where
  "sub_tasks item = (case map_of item ''sub_tasks'' of Some (PList subs) \<Rightarrow> Some subs | _ \<Rightarrow> None)"

text \<open>Lines 80-86: a missing or non-list \<^verbatim>\<open>sub_tasks\<close> becomes the empty list, then the new
  subtask is appended.\<close>

definition add_subtask :: "pydict \<Rightarrow> string \<Rightarrow> pydict" where
  "add_subtask item new_subtask_text =
     (let item1 = (if sub_tasks item = None then dict_set item ''sub_tasks'' (PList []) else item);
          subs = (case sub_tasks item1 of Some subs \<Rightarrow> subs | None \<Rightarrow> [])
      in dict_set item1 ''sub_tasks''
           (PList (subs @ [PDict [(''task'', PStr (py_strip new_subtask_text)),
                                  (''priority'', PStr ''Medium''),
                                  (''completed'', PBool False)]])))"

definition put :: "pyval \<Rightarrow> pyval list \<times> outcome \<Rightarrow> pyval list \<times> outcome" where
  "put x res = (x # fst res, snd res)"

text \<open>
  The loop of lines 49-102 from index \<open>i\<close> on, \<open>tasks\<close> being the items from there. The result
  is what the list holds from index \<open>i\<close> on when the run ends, and how it ends. The program
  changes the stored dicts and lists in place; every one of them is reached from one place
  only (the decoder and line 82 build fresh objects), so returning the changed list is the
  same.
\<close>

function render_loop ::
  "ui \<Rightarrow> nat \<Rightarrow> string \<Rightarrow> nat \<Rightarrow> pyval list \<Rightarrow> nat \<Rightarrow> nat \<Rightarrow> pyval list \<times> outcome"
where
  "render_loop u level parent_key i [] total_tasks completed_tasks =
     ([], Finished total_tasks completed_tasks)"
| "render_loop u level parent_key i (raw_item # rest) total_tasks completed_tasks =
     (case normalize_item raw_item of
        PDict item0 \<Rightarrow>
          (let key = task_key parent_key level i;
               new_status = checkbox u (''chk_'' @ key) (completed item0);
               item = dict_set item0 ''completed'' (PBool new_status);
               total_tasks = total_tasks + 1;
               completed_tasks = (if new_status then completed_tasks + 1 else completed_tasks);
               new_subtask_text = text_input u (''input_sub_'' @ key)
           in if \<not> dict_has item ''task'' then (stored raw_item item # rest, Raised KeyError)
              else if button u (''btn_add_sub_'' @ key) \<and> py_strip new_subtask_text \<noteq> []
              then (stored raw_item (add_subtask item new_subtask_text) # rest, Rerun)
              else if button u (''btn_del_'' @ key) then (rest, Rerun)
              else
                (case sub_tasks item of
                   None \<Rightarrow>
                     put (stored raw_item item)
                       (render_loop u level parent_key (i + 1) rest total_tasks completed_tasks)
                 | Some subs \<Rightarrow>
                     (case render_loop u (level + 1) key 0 subs 0 0 of
                        (subs', Finished sub_total sub_completed) \<Rightarrow>
                          put (stored raw_item (dict_set item ''sub_tasks'' (PList subs')))
                            (render_loop u level parent_key (i + 1) rest
                               (total_tasks + sub_total) (completed_tasks + sub_completed))
                      | (subs', Rerun) \<Rightarrow>
                          (stored raw_item (dict_set item ''sub_tasks'' (PList subs')) # rest, Rerun)
                      | (subs', Raised e) \<Rightarrow>
                          (stored raw_item (dict_set item ''sub_tasks'' (PList subs')) # rest, Raised e))))
      | _ \<Rightarrow> (raw_item # rest, Raised AttributeError))"
  by pat_completeness auto

lemma map_of_dict_set: "map_of (dict_set d k v) = (map_of d)(k \<mapsto> v)"
  by (induction d) (auto simp: fun_eq_iff)

lemma map_of_size: "map_of d k = Some v \<Longrightarrow> size v < Suc (size_list (size_prod (\<lambda>_. 0) size) d)"
  by (induction d) (auto split: if_splits)

lemma sub_tasks_dict_set_other:
  "k \<noteq> ''sub_tasks'' \<Longrightarrow> sub_tasks (dict_set d k v) = sub_tasks d"
  by (simp add: sub_tasks_def map_of_dict_set)

lemma sub_tasks_size:
  assumes "sub_tasks d = Some subs"
  shows "size_list size subs < size_list (size_prod (\<lambda>_. 0) size) d"
proof -
  from assms have "map_of d ''sub_tasks'' = Some (PList subs)"
    by (auto simp: sub_tasks_def split: option.splits pyval.splits)
  from map_of_size [OF this] show ?thesis by simp
qed

lemma normalize_PDict:
  "normalize_item raw_item = PDict item \<Longrightarrow>
     raw_item = PDict item \<or>
     (\<exists>s. raw_item = PStr s \<and>
        item = [(''task'', PStr s), (''priority'', PStr ''Medium''), (''completed'', PBool False)])"
  by (cases raw_item) auto

lemma sub_tasks_normalize_size:
  assumes "normalize_item raw_item = PDict item0"
    and "sub_tasks (dict_set item0 ''completed'' v) = Some subs"
  shows "size_list size subs < size raw_item"
proof -
  from assms(2) have sub: "sub_tasks item0 = Some subs"
    by (simp add: sub_tasks_dict_set_other)
  from normalize_PDict [OF assms(1)] show ?thesis
  proof
    assume "raw_item = PDict item0"
    with sub_tasks_size [OF sub] show ?thesis by simp
  next
    assume "\<exists>s. raw_item = PStr s \<and>
        item0 = [(''task'', PStr s), (''priority'', PStr ''Medium''), (''completed'', PBool False)]"
    with sub show ?thesis by (auto simp: sub_tasks_def)
  qed
qed

termination render_loop
proof (relation "measure (\<lambda>(u, level, parent_key, i, tasks, total_tasks, completed_tasks).
    size_list size tasks)", goal_cases)
  case 1
  then show ?case by simp
next
  case 2
  then show ?case by simp
next
  case (3 u level parent_key i raw_item rest total_tasks completed_tasks item0)
  then show ?case
    by (auto intro!: less_SucI trans_less_add1 elim: sub_tasks_normalize_size)
next
  case 4
  then show ?case by simp
qed

text \<open>\<^verbatim>\<open>render_tasks(tasks, level, parent_key)\<close>: the list as the run leaves it, and the
  outcome.\<close>

definition render_tasks :: "ui \<Rightarrow> pyval list \<Rightarrow> nat \<Rightarrow> string \<Rightarrow> pyval list \<times> outcome" where
  "render_tasks u tasks level parent_key = render_loop u level parent_key 0 tasks 0 0"

section \<open>Forests of task nodes\<close>

text \<open>
  The words of the specification, over the values the program stores. The subtasks of an
  entry are the list \<^verbatim>\<open>render_tasks\<close> descends into at line 95; a bare string has none.\<close>

fun children :: "pyval \<Rightarrow> pyval list" where
  "children (PDict item) = (case sub_tasks item of Some subs \<Rightarrow> subs | None \<Rightarrow> [])"
| "children x = []"

lemma children_size [termination_simp]: "size_list size (children x) < Suc (size x + n)"
proof (cases x)
  case (PDict item)
  then show ?thesis
    using sub_tasks_size [of item] by (auto split: option.splits)
qed simp_all


text \<open>The number of nodes of a forest, at any depth, and the number of those whose own flag is
  true.\<close>

fun count_nodes :: "pyval list \<Rightarrow> nat" where
  "count_nodes [] = 0"
| "count_nodes (x # xs) = 1 + count_nodes (children x) + count_nodes xs"


text \<open>
  A task node: a bare string, or a dict that has a \<^verbatim>\<open>task\<close> and whose \<^verbatim>\<open>completed\<close>, when
  present, is a boolean. A task forest holds task nodes at every depth.\<close>

definition task_node :: "pyval \<Rightarrow> bool" where
  "task_node x =
     (case x of
        PStr s \<Rightarrow> True
      | PDict item \<Rightarrow>
          dict_has item ''task'' \<and> (case completed item of PBool b \<Rightarrow> True | _ \<Rightarrow> False)
      | _ \<Rightarrow> False)"

fun task_forest :: "pyval list \<Rightarrow> bool" where
  "task_forest [] = True"
| "task_forest (x # xs) = (task_node x \<and> task_forest (children x) \<and> task_forest xs)"

text \<open>
  A path is a list of indices: the first into the forest, the next into the subtasks of the
  entry found, and so on. \<open>path_key\<close> is the \<^verbatim>\<open>task_key\<close> line 60 gives the node at a path.\<close>

fun node_at :: "pyval list \<Rightarrow> nat list \<Rightarrow> pyval option" where
  "node_at forest [] = None"
| "node_at forest [i] = (if i < length forest then Some (forest ! i) else None)"
| "node_at forest (i # j # p) =
     (if i < length forest then node_at (children (forest ! i)) (j # p) else None)"

fun path_key :: "string \<Rightarrow> nat \<Rightarrow> nat list \<Rightarrow> string" where
  "path_key parent_key level [] = parent_key"
| "path_key parent_key level (i # p) = path_key (task_key parent_key level i) (level + 1) p"

fun path_suffix :: "nat \<Rightarrow> nat list \<Rightarrow> string" where
  "path_suffix level [] = []"
| "path_suffix level (i # p) = ''_'' @ str_nat level @ ''_'' @ str_nat i @ path_suffix (level + 1) p"

text \<open>
  \<^verbatim>\<open>bool(v)\<close>, the state in which \<^verbatim>\<open>st.checkbox(..., value=v)\<close> shows a box the user has not
  changed. A number is false when it is zero. For a float that is decided from the text it
  was read from: the double nearest to \<open>m\<close> times 10 to the power \<open>e\<close> is zero when \<open>m\<close> is,
  or when the number is at most 2 to the power -1075, half the least positive double.
  \<^verbatim>\<open>NaN\<close> and the infinities are true.
\<close>

definition exponent_of :: "string \<Rightarrow> int" where
  "exponent_of ex =
     (case drop 1 ex of
        [] \<Rightarrow> 0
      | c # cs \<Rightarrow>
          if c = CHR ''-'' then - int_of_digits cs
          else if c = CHR ''+'' then int_of_digits cs
          else int_of_digits (c # cs))"

definition float_is_zero :: "string \<Rightarrow> bool" where
  "float_is_zero literal =
     (case match_number literal of
        None \<Rightarrow> False
      | Some (integer, frac, ex, r) \<Rightarrow>
          (let m = int_of_digits (filter is_digit integer @ drop 1 frac);
               e = exponent_of ex - int (length (drop 1 frac))
           in m = 0 \<or> (e < 0 \<and> m * 2 ^ 1075 \<le> 10 ^ nat (- e))))"

fun py_truthy :: "pyval \<Rightarrow> bool" where
  "py_truthy PNone = False"
| "py_truthy (PBool b) = b"
| "py_truthy (PInt n) = (n \<noteq> 0)"
| "py_truthy (PFloat literal) = (\<not> float_is_zero literal)"
| "py_truthy (PStr s) = (s \<noteq> [])"
| "py_truthy (PList xs) = (xs \<noteq> [])"
| "py_truthy (PDict d) = (d \<noteq> [])"


definition no_press :: "ui \<Rightarrow> string \<Rightarrow> nat \<Rightarrow> nat \<Rightarrow> bool" where
  "no_press u parent_key level i =
     (\<forall>j p. i \<le> j \<longrightarrow>
        \<not> button u (''btn_add_sub_'' @ path_key parent_key level (j # p)) \<and>
        \<not> button u (''btn_del_'' @ path_key parent_key level (j # p)))"

definition idle :: ui where
  "idle = \<lparr>checkbox = (\<lambda>key v. py_truthy v), text_input = (\<lambda>key. []), button = (\<lambda>key. False)\<rparr>"

text \<open>
  What a run leaves of an entry it has passed: the state of the checkbox written to
  \<^verbatim>\<open>completed\<close> of a stored dict (line 69), its subtasks as the run below left them.
  \<open>after_item\<close> does so for any page, \<open>seen\<close> for a whole forest on an untouched page.\<close>

definition write_back :: "pydict \<Rightarrow> pyval list \<Rightarrow> pydict" where
  "write_back item subs' =
     (case sub_tasks item of None \<Rightarrow> item | Some subs \<Rightarrow> dict_set item ''sub_tasks'' (PList subs'))"

definition after_item :: "ui \<Rightarrow> string \<Rightarrow> pyval \<Rightarrow> pyval list \<Rightarrow> pyval" where
  "after_item u key x subs' =
     (case normalize_item x of
        PDict item0 \<Rightarrow>
          stored x (write_back
            (dict_set item0 ''completed'' (PBool (checkbox u (''chk_'' @ key) (completed item0)))) subs')
      | _ \<Rightarrow> x)"

definition ticked :: "ui \<Rightarrow> string \<Rightarrow> pyval \<Rightarrow> bool" where
  "ticked u key x =
     (case normalize_item x of PDict item0 \<Rightarrow> checkbox u (''chk_'' @ key) (completed item0) | _ \<Rightarrow> False)"



text \<open>The dict of line 82.\<close>

definition new_subtask :: "string \<Rightarrow> pyval" where
  "new_subtask new_subtask_text =
     PDict [(''task'', PStr (py_strip new_subtask_text)), (''priority'', PStr ''Medium''),
            (''completed'', PBool False)]"

section \<open>Widget keys\<close>

text \<open>The keys of two nodes differ: the key of a node spells its path, the numbers in
  decimal, set apart by underscores.\<close>

declare str_nat.simps [simp del]

lemma digit_char_not_sep: "(d::nat) < 10 \<Longrightarrow> (char_of (48 + d) :: char) \<noteq> CHR ''_''"
proof
  assume d: "d < 10" and "(char_of (48 + d) :: char) = CHR ''_''"
  then have "(of_char (char_of (48 + d) :: char) :: nat) = of_char (CHR ''_'')" by simp
  with d show False by simp
qed

lemma digit_char_inj:
  assumes "(a::nat) < 10" and "(b::nat) < 10" and "(char_of (48 + a) :: char) = char_of (48 + b)"
  shows "a = b"
proof -
  from assms(3) have "(of_char (char_of (48 + a) :: char) :: nat) = of_char (char_of (48 + b) :: char)"
    by simp
  with assms(1,2) show ?thesis by simp
qed

lemma str_nat_no_sep: "CHR ''_'' \<notin> set (str_nat n)"
proof (induction n rule: str_nat.induct)
  case (1 n)
  show ?case
  proof (cases "n < 10")
    case True
    then show ?thesis
      using digit_char_not_sep [of n] by (subst str_nat.simps) auto
  next
    case False
    with 1 show ?thesis
      using digit_char_not_sep [of "n mod 10"] by (subst str_nat.simps) auto
  qed
qed

lemma str_nat_nonempty: "str_nat n \<noteq> []"
  by (subst str_nat.simps) simp

lemma str_nat_inj: "str_nat a = str_nat b \<Longrightarrow> a = b"
proof (induction a arbitrary: b rule: str_nat.induct)
  case (1 a)
  show ?case
  proof (cases "a < 10")
    case True
    show ?thesis
    proof (cases "b < 10")
      case b: True
      from "1.prems" True b have "(char_of (48 + a) :: char) = char_of (48 + b)"
        by (simp add: str_nat.simps [of a] str_nat.simps [of b])
      with True b show ?thesis by (rule digit_char_inj)
    next
      case False
      with "1.prems" True str_nat_nonempty [of "b div 10"] show ?thesis
        by (simp add: str_nat.simps [of a] str_nat.simps [of b])
    qed
  next
    case False
    show ?thesis
    proof (cases "b < 10")
      case True
      with "1.prems" False str_nat_nonempty [of "a div 10"] show ?thesis
        by (simp add: str_nat.simps [of a] str_nat.simps [of b])
    next
      case b: False
      from "1.prems" False b have "str_nat (a div 10) = str_nat (b div 10)"
        and "(char_of (48 + a mod 10) :: char) = char_of (48 + b mod 10)"
        by (simp_all add: str_nat.simps [of a] str_nat.simps [of b])
      with "1.IH" [OF False] have "a div 10 = b div 10" and "a mod 10 = b mod 10"
        by (auto intro: digit_char_inj)
      then show ?thesis
        by (metis div_mult_mod_eq)
    qed
  qed
qed

lemma path_key_suffix: "path_key pk level p = pk @ path_suffix level p"
  by (induction p arbitrary: pk level) (simp_all add: task_key_def)

lemma path_suffix_head: "path_suffix level p = [] \<or> hd (path_suffix level p) = CHR ''_''"
  by (cases p) simp_all

lemma takeWhile_sep: "c \<notin> set xs \<Longrightarrow> takeWhile (\<lambda>x. x \<noteq> c) (xs @ c # ys) = xs"
  by (induction xs) auto

lemma sep_split:
  assumes "xs @ a = ys @ b" and "CHR ''_'' \<notin> set xs" and "CHR ''_'' \<notin> set ys"
    and "a = [] \<or> hd a = CHR ''_''" and "b = [] \<or> hd b = CHR ''_''"
  shows "xs = ys"
proof -
  have "takeWhile (\<lambda>c. c \<noteq> CHR ''_'') (xs @ a) = xs"
    using assms(2,4) by (cases a) (auto simp: takeWhile_sep takeWhile_eq_all_conv)
  moreover have "takeWhile (\<lambda>c. c \<noteq> CHR ''_'') (ys @ b) = ys"
    using assms(3,5) by (cases b) (auto simp: takeWhile_sep takeWhile_eq_all_conv)
  ultimately show ?thesis using assms(1) by simp
qed

lemma path_key_index:
  assumes "path_key pk level (i # p) = path_key pk level (j # q)"
  shows "i = j"
proof -
  from assms have "str_nat i @ path_suffix (Suc level) p = str_nat j @ path_suffix (Suc level) q"
    by (simp add: path_key_suffix)
  then have "str_nat i = str_nat j"
    by (rule sep_split) (simp_all add: str_nat_no_sep path_suffix_head)
  then show ?thesis by (rule str_nat_inj)
qed

lemma path_key_longer: "task_key pk level i \<noteq> path_key (task_key pk level i) (Suc level) (j # p)"
  by (simp add: path_key_suffix)

lemma no_press_here:
  "no_press u pk level i \<Longrightarrow>
     \<not> button u (''btn_add_sub_'' @ task_key pk level i) \<and>
     \<not> button u (''btn_del_'' @ task_key pk level i)"
  unfolding no_press_def
  by (metis le_refl path_key.simps)

lemma no_press_next: "no_press u pk level i \<Longrightarrow> no_press u pk level (Suc i)"
  by (simp add: no_press_def)

lemma no_press_down: "no_press u pk level i \<Longrightarrow> no_press u (task_key pk level i) (Suc level) j"
proof -
  assume a: "no_press u pk level i"
  have "\<And>j' p. path_key (task_key pk level i) (Suc level) (j' # p) = path_key pk level (i # j' # p)"
    by simp
  with a show ?thesis
    unfolding no_press_def by (metis le_refl)
qed

section \<open>Runs of the renderer\<close>

lemma dict_has_dict_set [simp]: "dict_has (dict_set d k v) k' = (k' = k \<or> dict_has d k')"
  by (auto simp: dict_has_def map_of_dict_set)

lemma completed_dict_set [simp]: "completed (dict_set d ''completed'' v) = v"
  by (simp add: completed_def dict_get_def map_of_dict_set)

lemma sub_tasks_completed_set [simp]: "sub_tasks (dict_set d ''completed'' v) = sub_tasks d"
  by (simp add: sub_tasks_dict_set_other)

lemma completed_set_sub_tasks [simp]: "completed (dict_set d ''sub_tasks'' v) = completed d"
  by (simp add: completed_def dict_get_def map_of_dict_set)

lemma sub_tasks_set_sub_tasks [simp]: "sub_tasks (dict_set d ''sub_tasks'' (PList subs)) = Some subs"
  by (simp add: sub_tasks_def map_of_dict_set)

lemma put_simp [simp]: "put x (xs, out) = (x # xs, out)"
  by (simp add: put_def)

lemma task_node_cases:
  assumes "task_node x"
  obtains s where "x = PStr s"
  | d b where "x = PDict d" and "dict_has d ''task''" and "completed d = PBool b"
  using assms by (auto simp: task_node_def split: pyval.splits)

lemma node_at_Cons_Suc: "node_at (x # xs) (Suc j # p) = node_at xs (j # p)"
  by (cases p) simp_all

lemma node_at_length: "node_at xs (j # p) = Some x \<Longrightarrow> j < length xs"
  by (cases p) (auto split: if_splits)

text \<open>One step of the loop over an entry whose buttons are not pressed, the run over its
  subtasks having finished.\<close>

lemma render_head:
  assumes "task_node x"
    and "\<not> button u (''btn_add_sub_'' @ task_key pk level i) \<or>
         py_strip (text_input u (''input_sub_'' @ task_key pk level i)) = []"
    and "\<not> button u (''btn_del_'' @ task_key pk level i)"
    and "render_loop u (Suc level) (task_key pk level i) 0 (children x) 0 0 = (subs', Finished st sc)"
  shows "render_loop u level pk i (x # rest) t c =
           put (after_item u (task_key pk level i) x subs')
             (render_loop u level pk (Suc i) rest (t + 1 + st)
                ((if ticked u (task_key pk level i) x then c + 1 else c) + sc))"
  using assms(1)
proof (cases rule: task_node_cases)
  case (1 s)
  with assms(2-4) show ?thesis
    by (auto simp: after_item_def ticked_def stored_def write_back_def sub_tasks_def dict_has_def
        completed_def dict_get_def)
next
  case (2 d b)
  with assms(2-4) show ?thesis
    by (cases "sub_tasks d")
      (auto simp: after_item_def ticked_def stored_def write_back_def)
qed

lemma after_item_task_node: "task_node x \<Longrightarrow> task_node (after_item u key x subs')"
  by (erule task_node_cases)
    (auto simp: after_item_def stored_def write_back_def task_node_def split: option.splits)

lemma after_item_children:
  "task_node x \<Longrightarrow> (children x = [] \<longrightarrow> subs' = []) \<Longrightarrow> children (after_item u key x subs') = subs'"
  by (erule task_node_cases)
    (auto simp: after_item_def stored_def write_back_def split: option.splits)

text \<open>A run in which no button is pressed finishes, counts every node and leaves a task
  forest of the same shape; on an untouched page it counts the flags as well.\<close>

lemma render_unpressed:
  assumes "no_press u pk level i" and "task_forest tasks"
  shows "\<exists>tasks' k. render_loop u level pk i tasks t c = (tasks', Finished (t + count_nodes tasks) k) \<and>
           task_forest tasks' \<and> count_nodes tasks' = count_nodes tasks \<and>
           length tasks' = length tasks"
  using assms
proof (induction "size_list size tasks" arbitrary: tasks pk level i t c rule: less_induct)
  case less
  show ?case
  proof (cases tasks)
    case Nil
    then show ?thesis by simp
  next
    case (Cons x rest)
    with less.prems have tn: "task_node x" and tc: "task_forest (children x)" and tr: "task_forest rest"
      by simp_all
    note np = no_press_here [OF less.prems(1)]
    have "size_list size (children x) < size_list size tasks"
      using children_size [of x "size_list size rest"] Cons by simp
    from less.hyps [OF this no_press_down [OF less.prems(1)] tc, of 0 0 0]
    obtain subs' sc where
      sub: "render_loop u (Suc level) (task_key pk level i) 0 (children x) 0 0 =
         (subs', Finished (count_nodes (children x)) sc)"
      and ts: "task_forest subs'" and cs: "count_nodes subs' = count_nodes (children x)"
      and ls: "length subs' = length (children x)"
      by auto
    let ?c = "(if ticked u (task_key pk level i) x then c + 1 else c) + sc"
    from less.hyps [of rest, OF _ no_press_next [OF less.prems(1)] tr,
        of "t + 1 + count_nodes (children x)" ?c] Cons
    obtain rest' k where
      r: "render_loop u level pk (Suc i) rest (t + 1 + count_nodes (children x)) ?c =
         (rest', Finished (t + 1 + count_nodes (children x) + count_nodes rest) k)"
      and tr': "task_forest rest'" and cr: "count_nodes rest' = count_nodes rest"
      and lr: "length rest' = length rest"
      by auto
    from ls have "children x = [] \<longrightarrow> subs' = []" by auto
    from after_item_children [OF tn this] after_item_task_node [OF tn]
    have "task_forest (after_item u (task_key pk level i) x subs' # rest')"
      and "count_nodes (after_item u (task_key pk level i) x subs' # rest') = count_nodes tasks"
      using ts tr' cs cr Cons by simp_all
    with render_head [OF tn _ _ sub, of rest t c] np r lr Cons show ?thesis
      by simp
  qed
qed


text \<open>What a finished run has done at the head of the list, and with it at every path.\<close>

lemma render_loop_Finished:
  assumes "render_loop u level pk i (raw # rest) t c = (tasks', Finished n k)"
  shows "\<exists>item0 item rest' b.
     normalize_item raw = PDict item0 \<and>
     b = checkbox u (''chk_'' @ task_key pk level i) (completed item0) \<and>
     item = dict_set item0 ''completed'' (PBool b) \<and>
     (case sub_tasks item0 of
        None \<Rightarrow>
          tasks' = stored raw item # rest' \<and>
          render_loop u level pk (Suc i) rest (t + 1) (if b then c + 1 else c) =
            (rest', Finished n k)
      | Some subs \<Rightarrow>
          (\<exists>subs' st sc.
             render_loop u (Suc level) (task_key pk level i) 0 subs 0 0 = (subs', Finished st sc) \<and>
             tasks' = stored raw (dict_set item ''sub_tasks'' (PList subs')) # rest' \<and>
             render_loop u level pk (Suc i) rest (t + 1 + st) ((if b then c + 1 else c) + sc) =
               (rest', Finished n k)))"
proof (cases "normalize_item raw")
  case (PDict item0)
  let ?key = "task_key pk level i"
  let ?b = "checkbox u (''chk_'' @ ?key) (completed item0)"
  let ?item = "dict_set item0 ''completed'' (PBool ?b)"
  show ?thesis
  proof (cases "sub_tasks item0")
    case None
    with assms PDict show ?thesis
      by (cases "render_loop u level pk (Suc i) rest (t + 1) (if ?b then c + 1 else c)")
        (auto simp: Let_def put_def split: if_splits)
  next
    case (Some subs)
    obtain subs' out where s: "render_loop u (Suc level) ?key 0 subs 0 0 = (subs', out)"
      by (cases "render_loop u (Suc level) ?key 0 subs 0 0")
    show ?thesis
    proof (cases out)
      case (Finished st sc)
      with assms PDict Some s show ?thesis
        by (cases "render_loop u level pk (Suc i) rest (t + 1 + st) ((if ?b then c + 1 else c) + sc)")
          (auto simp: Let_def put_def split: if_splits)
    qed (use assms PDict Some s in \<open>auto simp: Let_def split: if_splits\<close>)
  qed
qed (use assms in simp_all)

lemma completed_write:
  assumes "render_loop u level pk i tasks t c = (tasks', Finished n k)"
    and "node_at tasks (j # p) = Some x"
  shows "(\<exists>s. x = PStr s \<and> node_at tasks' (j # p) = Some (PStr s)) \<or>
         (\<exists>d d'. x = PDict d \<and> node_at tasks' (j # p) = Some (PDict d') \<and>
            map_of d' ''completed'' =
              Some (PBool (checkbox u (''chk_'' @ path_key pk level ((i + j) # p)) (completed d))))"
  using assms
proof (induction "size_list size tasks" arbitrary: tasks tasks' pk level i j p t c n k rule: less_induct)
  case less
  from less.prems(2) obtain raw rest where tasks: "tasks = raw # rest"
    by (cases tasks) (auto dest: node_at_length)
  from render_loop_Finished [OF less.prems(1) [unfolded tasks]]
  obtain item0 rest' where n0: "normalize_item raw = PDict item0"
    and cs: "case sub_tasks item0 of
        None \<Rightarrow>
          tasks' = stored raw (dict_set item0 ''completed'' (PBool (checkbox u (''chk_'' @ task_key pk level i) (completed item0)))) # rest' \<and>
          render_loop u level pk (Suc i) rest (t + 1) (if checkbox u (''chk_'' @ task_key pk level i) (completed item0) then c + 1 else c) =
            (rest', Finished n k)
      | Some subs \<Rightarrow>
          (\<exists>subs' st sc.
             render_loop u (Suc level) (task_key pk level i) 0 subs 0 0 = (subs', Finished st sc) \<and>
             tasks' = stored raw (dict_set (dict_set item0 ''completed'' (PBool (checkbox u (''chk_'' @ task_key pk level i) (completed item0)))) ''sub_tasks'' (PList subs')) # rest' \<and>
             render_loop u level pk (Suc i) rest (t + 1 + st) ((if checkbox u (''chk_'' @ task_key pk level i) (completed item0) then c + 1 else c) + sc) =
               (rest', Finished n k))"
    by blast
  let ?b = "checkbox u (''chk_'' @ task_key pk level i) (completed item0)"
  from cs obtain y t' c' where tasks': "tasks' = y # rest'"
    and rest: "render_loop u level pk (Suc i) rest t' c' = (rest', Finished n k)"
    by (auto split: option.splits)
  show ?case
  proof (cases j)
    case (Suc j')
    with less.prems(2) tasks have "node_at rest (j' # p) = Some x"
      by (simp add: node_at_Cons_Suc)
    from less.hyps [OF _ rest this] tasks tasks' Suc show ?thesis
      by (simp add: node_at_Cons_Suc)
  next
    case 0
    show ?thesis
    proof (cases p)
      case Nil
      with 0 less.prems(2) tasks have x: "x = raw" by simp
      from normalize_PDict [OF n0] show ?thesis
      proof
        assume r: "raw = PDict item0"
        with cs x 0 Nil tasks' show ?thesis
          by (auto simp: stored_def map_of_dict_set split: option.splits)
      next
        assume "\<exists>s. raw = PStr s \<and> item0 =
          [(''task'', PStr s), (''priority'', PStr ''Medium''), (''completed'', PBool False)]"
        with cs x 0 Nil tasks' show ?thesis
          by (auto simp: stored_def sub_tasks_def split: option.splits)
      qed
    next
      case (Cons j2 p2)
      with 0 less.prems(2) tasks have at: "node_at (children raw) (j2 # p2) = Some x"
        by simp
      then have "children raw \<noteq> []"
        by (auto dest: node_at_length)
      then obtain subs where raw: "raw = PDict item0" and subs: "sub_tasks item0 = Some subs"
        using n0 by (cases raw) (auto split: option.splits)
      with cs tasks' obtain subs' st sc where
        sub: "render_loop u (Suc level) (task_key pk level i) 0 subs 0 0 = (subs', Finished st sc)"
        and y: "y = PDict (dict_set (dict_set item0 ''completed'' (PBool ?b)) ''sub_tasks'' (PList subs'))"
        by (auto simp: stored_def)
      have "size_list size subs < size_list size tasks"
        using sub_tasks_size [OF subs] tasks raw by simp
      from less.hyps [OF this sub] at raw subs
      have "(\<exists>s. x = PStr s \<and> node_at subs' (j2 # p2) = Some (PStr s)) \<or>
         (\<exists>d d'. x = PDict d \<and> node_at subs' (j2 # p2) = Some (PDict d') \<and>
            map_of d' ''completed'' =
              Some (PBool (checkbox u (''chk_'' @ path_key (task_key pk level i) (Suc level) ((0 + j2) # p2)) (completed d))))"
        by simp
      with 0 Cons tasks' y show ?thesis
        by simp
    qed
  qed
qed


text \<open>The run in which the Add Subtask button of the node at a path is pressed.\<close>

lemma sub_tasks_add_subtask:
  "sub_tasks (add_subtask item text) = Some (children (PDict item) @ [new_subtask text])"
  by (cases "sub_tasks item") (simp_all add: add_subtask_def new_subtask_def)

lemma map_of_add_subtask:
  "k \<noteq> ''sub_tasks'' \<Longrightarrow> map_of (add_subtask item text) k = map_of item k"
  by (simp add: add_subtask_def Let_def map_of_dict_set)

lemma description_kept:
  "description (add_subtask item text) = description item"
  "description (dict_set d ''completed'' v) = description d"
  "description (dict_set d ''sub_tasks'' v) = description d"
  by (simp_all add: description_def dict_get_def map_of_add_subtask map_of_dict_set)

lemma priority_kept:
  "priority (add_subtask item text) = priority item"
  "priority (dict_set d ''completed'' v) = priority d"
  "priority (dict_set d ''sub_tasks'' v) = priority d"
  by (simp_all add: priority_def dict_get_def map_of_add_subtask map_of_dict_set)

lemma task_node_normalize:
  assumes "task_node x"
  shows "\<exists>item0. normalize_item x = PDict item0 \<and> dict_has item0 ''task'' \<and>
           children (PDict item0) = children x"
  using assms by (cases rule: task_node_cases) (simp_all add: dict_has_def sub_tasks_def)

lemma render_add:
  assumes "\<forall>key. button u key = (key = ''btn_add_sub_'' @ path_key pk level ((i + j) # p))"
    and "py_strip (text_input u (''input_sub_'' @ path_key pk level ((i + j) # p))) \<noteq> []"
    and "task_forest tasks" and "node_at tasks (j # p) = Some x"
  shows "\<exists>tasks' item0 item'. render_loop u level pk i tasks t c = (tasks', Rerun) \<and>
           normalize_item x = PDict item0 \<and>
           node_at tasks' (j # p) = Some (stored x item') \<and>
           sub_tasks item' =
             Some (children x @
               [new_subtask (text_input u (''input_sub_'' @ path_key pk level ((i + j) # p)))]) \<and>
           description item' = description item0 \<and> priority item' = priority item0"
  using assms
proof (induction "size_list size tasks" arbitrary: tasks pk level i j p t c rule: less_induct)
  case less
  from less.prems(4) obtain y rest where tasks: "tasks = y # rest"
    by (cases tasks) (auto dest: node_at_length)
  with less.prems have tn: "task_node y" and tc: "task_forest (children y)" and tr: "task_forest rest"
    by simp_all
  let ?key = "task_key pk level i"
  let ?K = "path_key pk level ((i + j) # p)"
  let ?text = "text_input u (''input_sub_'' @ ?K)"
  have del: "\<And>k. \<not> button u (''btn_del_'' @ k)"
    using less.prems(1) by simp
  show ?case
  proof (cases j)
    case (Suc j')
    have other: "\<And>q. path_key pk level (i # q) \<noteq> ?K"
      using path_key_index [of pk level i _ "i + j" p] Suc by auto
    have np: "no_press u ?key (Suc level) 0"
      unfolding no_press_def using less.prems(1) other [of "_ # _"] by simp
    have add: "\<not> button u (''btn_add_sub_'' @ ?key)"
      using less.prems(1) other [of "[]"] by simp
    from render_unpressed [OF np tc, of 0 0] obtain subs' sc where
      sub: "render_loop u (Suc level) ?key 0 (children y) 0 0 =
         (subs', Finished (count_nodes (children y)) sc)"
      by auto
    from less.prems(4) tasks Suc have at: "node_at rest (j' # p) = Some x"
      by (simp add: node_at_Cons_Suc)
    have K: "path_key pk level ((Suc i + j') # p) = ?K"
      using Suc by simp
    let ?t = "t + 1 + count_nodes (children y)"
    let ?c = "(if ticked u ?key y then c + 1 else c) + sc"
    from less.hyps [of rest pk level "Suc i" j' p ?t ?c] less.prems(1,2) tr at tasks
    obtain rest' item0 item' where
      r': "render_loop u level pk (Suc i) rest ?t ?c = (rest', Rerun)"
      and n0: "normalize_item x = PDict item0"
      and at': "node_at rest' (j' # p) = Some (stored x item')"
      and st: "sub_tasks item' = Some (children x @ [new_subtask ?text])"
      and dp: "description item' = description item0" "priority item' = priority item0"
      unfolding K by auto
    from render_head [OF tn _ _ sub, of rest t c] add del r'
    have "render_loop u level pk i tasks t c = (after_item u ?key y subs' # rest', Rerun)"
      using tasks by simp
    with n0 at' st dp Suc show ?thesis
      by (auto simp: node_at_Cons_Suc)
  next
    case 0
    show ?thesis
    proof (cases p)
      case Nil
      with 0 less.prems(4) tasks have x: "y = x" by simp
      have add: "button u (''btn_add_sub_'' @ ?key)" and K: "?K = ?key"
        using less.prems(1) 0 Nil by simp_all
      from task_node_normalize [OF tn] x obtain item0 where
        n0: "normalize_item x = PDict item0" and ht: "dict_has item0 ''task''"
        and ch: "children (PDict item0) = children x"
        by auto
      let ?item = "dict_set item0 ''completed'' (PBool (checkbox u (''chk_'' @ ?key) (completed item0)))"
      let ?item' = "add_subtask ?item (text_input u (''input_sub_'' @ ?key))"
      have r: "render_loop u level pk i tasks t c = (stored x ?item' # rest, Rerun)"
        using tasks x n0 ht add less.prems(2) K by (simp add: Let_def)
      have "node_at (stored x ?item' # rest) (j # p) = Some (stored x ?item')"
        using 0 Nil by simp
      moreover have "sub_tasks ?item' = Some (children x @ [new_subtask ?text])"
        using ch K by (simp add: sub_tasks_add_subtask)
      moreover have "description ?item' = description item0" and "priority ?item' = priority item0"
        by (simp_all add: description_kept priority_kept)
      ultimately show ?thesis
        using r n0 by blast
    next
      case (Cons j2 p2)
      with 0 less.prems(4) tasks have at: "node_at (children y) (j2 # p2) = Some x"
        by simp
      then have "children y \<noteq> []"
        by (auto dest: node_at_length)
      with tn obtain d0 b subs where y: "y = PDict d0" and ht: "dict_has d0 ''task''"
        and subs: "sub_tasks d0 = Some subs"
        by (cases rule: task_node_cases) (auto split: option.splits)
      have K: "path_key ?key (Suc level) ((0 + j2) # p2) = ?K"
        using 0 Cons by simp
      have add: "\<not> button u (''btn_add_sub_'' @ ?key)"
        using less.prems(1) 0 Cons path_key_longer [of pk level i j2 p2] by auto
      have "size_list size (children y) < size_list size tasks"
        using children_size [of y "size_list size rest"] tasks by simp
      from less.hyps [OF this, of ?key "Suc level" 0 j2 p2 0 0] less.prems(1,2) tc at
      obtain subs' item0 item' where
        sub: "render_loop u (Suc level) ?key 0 subs 0 0 = (subs', Rerun)"
        and n0: "normalize_item x = PDict item0"
        and at': "node_at subs' (j2 # p2) = Some (stored x item')"
        and st: "sub_tasks item' = Some (children x @ [new_subtask ?text])"
        and dp: "description item' = description item0" "priority item' = priority item0"
        unfolding K using y subs by auto
      let ?item = "dict_set d0 ''completed'' (PBool (checkbox u (''chk_'' @ ?key) (completed d0)))"
      let ?y = "PDict (dict_set ?item ''sub_tasks'' (PList subs'))"
      have "render_loop u level pk i tasks t c = (?y # rest, Rerun)"
        using tasks y ht subs sub add del by (simp add: stored_def)
      with n0 at' st dp 0 Cons show ?thesis
        by auto
    qed
  qed
qed

lemma render_blank_add:
  assumes "py_strip (text_input u (''input_sub_'' @ K)) = []"
    and "checkbox u' = checkbox u" and "text_input u' = text_input u"
    and "\<forall>key. key \<noteq> ''btn_add_sub_'' @ K \<longrightarrow> button u' key = button u key"
  shows "render_loop u' level pk i tasks t c = render_loop u level pk i tasks t c"
proof (induction "size_list size tasks" arbitrary: tasks pk level i t c rule: less_induct)
  case less
  show ?case
  proof (cases tasks)
    case Nil
    then show ?thesis by simp
  next
    case (Cons x rest)
    have rest: "\<And>t c. render_loop u' level pk (Suc i) rest t c = render_loop u level pk (Suc i) rest t c"
      using less [of rest] Cons by simp
    let ?key = "task_key pk level i"
    have del: "button u' (''btn_del_'' @ ?key) = button u (''btn_del_'' @ ?key)"
      using assms(4) by simp
    have add: "?key \<noteq> K \<Longrightarrow> button u' (''btn_add_sub_'' @ ?key) = button u (''btn_add_sub_'' @ ?key)"
      using assms(4) by simp
    note eqs = assms(2,3) del rest
    show ?thesis
    proof (cases "normalize_item x")
      case (PDict item0)
      have subs: "render_loop u' (Suc level) ?key 0 subs 0 0 = render_loop u (Suc level) ?key 0 subs 0 0"
        if "sub_tasks item0 = Some subs" for subs
      proof -
        have "size_list size subs < size_list size tasks"
          using sub_tasks_normalize_size [OF PDict, of _ subs] that Cons by simp
        from less [OF this] show ?thesis .
      qed
      show ?thesis
      proof (cases "?key = K")
        case True
        with assms(1) have blank: "py_strip (text_input u (''input_sub_'' @ ?key)) = []"
          by simp
        show ?thesis
          unfolding Cons render_loop.simps PDict Let_def eqs
          using blank by (simp add: subs rest split: option.splits)
      next
        case False
        show ?thesis
          unfolding Cons render_loop.simps PDict Let_def eqs add [OF False]
          by (simp add: subs rest split: option.splits)
      qed
    qed (use Cons in simp_all)
  qed
qed

section \<open>The reply of the model: what is stored\<close>

text \<open>The decoder does raise the two exceptions line 161 does not catch: at a run of opening
  brackets longer than the interpreter has room for, and at an integer of more than 640
  digits that is longer than the limit. They leave \<^verbatim>\<open>main\<close>, and nothing is stored.\<close>

lemma deep_nesting_raises:
  "scan_once max_digits depth (replicate (Suc depth) (CHR ''['')) = Inl RecursionError"
proof (induction depth)
  case 0
  then show ?case by simp
next
  case (Suc depth)
  have "skip_ws (replicate (Suc depth) (CHR ''['')) = CHR ''['' # replicate depth (CHR ''['')"
    by (simp add: skip_ws_def is_json_ws_def)
  with Suc show ?case
    by (simp add: JSONArray.simps [of max_digits depth "CHR ''['' # replicate depth (CHR ''['')"])
qed

lemma deep_nesting_json_loads:
  "json_loads ip (replicate (Suc (recursion_budget ip)) (CHR ''['')) = Inl RecursionError"
proof -
  have "skip_ws (replicate (Suc (recursion_budget ip)) (CHR ''['')) =
      replicate (Suc (recursion_budget ip)) (CHR ''['')"
    by (simp add: skip_ws_def is_json_ws_def)
  then show ?thesis
    unfolding json_loads_def using deep_nesting_raises [of "max_str_digits ip" "recursion_budget ip"]
    by simp
qed

lemma long_integer_raises:
  assumes "640 < n" and "0 < max_str_digits ip" and "max_str_digits ip < n"
  shows "json_loads ip (replicate n (CHR ''1'')) = Inl ValueError"
proof -
  from assms(1) obtain m where n: "n = Suc m"
    by (cases n) auto
  have d: "is_digit (CHR ''1'')"
    by (simp add: is_digit_def)
  then have "match_number (replicate n (CHR ''1'')) = Some (replicate n (CHR ''1''), [], [], [])"
    by (simp add: n match_number_def match_integer_def match_frac_def match_exp_def)
  moreover have "parse_int (max_str_digits ip) (replicate n (CHR ''1'')) = Inl ValueError"
    using assms d by (simp add: parse_int_def)
  moreover have "skip_ws (replicate n (CHR ''1'')) = CHR ''1'' # replicate m (CHR ''1'')"
    by (simp add: n skip_ws_def is_json_ws_def)
  ultimately show ?thesis
    by (simp add: json_loads_def n)
qed

lemma deep_reply_raises:
  "main_submit \<lparr>max_str_digits = 4300, recursion_budget = 3\<rparr> st (Some ''[[[[1]]]]'') =
     Inl RecursionError"
proof -
  have "json_loads \<lparr>max_str_digits = 4300, recursion_budget = 3\<rparr> (json_response ''[[[[1]]]]'') =
      Inl RecursionError"
    by code_simp
  then show ?thesis
    by (simp add: main_submit_def)
qed

lemma long_reply_raises:
  "main_submit \<lparr>max_str_digits = 640, recursion_budget = 900\<rparr> st
     (Some (replicate 641 (CHR ''7''))) = Inl ValueError"
proof -
  have "json_loads \<lparr>max_str_digits = 640, recursion_budget = 900\<rparr>
      (json_response (replicate 641 (CHR ''7''))) = Inl ValueError"
    by code_simp
  then show ?thesis
    by (simp add: main_submit_def)
qed

text \<open>
  Claim C1 says that a reply which parses to a JSON value other than an array is kept as
  the message, and that only an array replaces the list. Line 158 stores whatever
  \<^verbatim>\<open>json.loads\<close> returned. The reply \<^verbatim>\<open>2\<close>, a plain answer to the question how many tasks are
  left, parses to a number: whatever the list was, the number takes its place, and the
  message is cleared where the claim has it hold the reply.
\<close>

theorem number_reply_replaces_list:
  "main_submit ip st (Some ''2'') = Inr (st\<lparr>todo_list := PInt 2, chat_response := None\<rparr>)"
proof -
  have "json_response ''2'' = ''2''"
    by code_simp
  moreover have "json_loads ip ''2'' = Inr (PInt 2)"
    by (simp add: json_loads_def skip_ws_def is_json_ws_def match_number_def match_integer_def
        match_frac_def match_exp_def is_digit_def parse_int_def int_of_literal_def
        int_of_digits_def digit_val_def Let_def)
  ultimately show ?thesis
    by (simp add: main_submit_def)
qed

text \<open>
  Claim C6 says that the empty reply is stored as the message \<^verbatim>\<open>""\<close>. Line 154,
  \<^verbatim>\<open>if ai_response:\<close>, passes over an empty reply, so nothing is stored: a message left by
  an earlier question stays where the claim puts the empty text.
\<close>

theorem empty_reply_counterexample:
  "main_submit \<lparr>max_str_digits = 4300, recursion_budget = 900\<rparr>
     \<lparr>todo_list = PList [], chat_response = Some ''old answer''\<rparr> (Some []) =
     Inr \<lparr>todo_list = PList [], chat_response = Some ''old answer''\<rparr> \<and>
   main_submit \<lparr>max_str_digits = 4300, recursion_budget = 900\<rparr>
     \<lparr>todo_list = PList [], chat_response = Some ''old answer''\<rparr> (Some []) \<noteq>
     Inr \<lparr>todo_list = PList [], chat_response = Some []\<rparr>"
  by (simp add: main_submit_def)

text \<open>
  Claim C6, as the program has it: the empty reply changes nothing, neither the list nor
  the message; it is no replacement and raises no error.
\<close>

theorem empty_reply_unchanged: "main_submit ip st (Some []) = Inr st"
  by (simp add: main_submit_def)

text \<open>
  Claim C4: the reply \<^verbatim>\<open>```json\n[{"task":"Buy milk"}]\n```\<close> replaces the list by the one
  dict the array holds and clears the message; that dict is its own normal form, and the
  fields the renderer reads from it are the description \<^verbatim>\<open>Buy milk\<close>, the priority
  \<^verbatim>\<open>Medium\<close>, completed \<^verbatim>\<open>False\<close> and no subtasks. The text nests an object in an array, so
  the interpreter must have room for two levels.
\<close>

theorem fenced_reply:
  assumes "2 \<le> recursion_budget ip"
  shows \<open>main_submit ip st (Some ''```json\<newline>[{"task":"Buy milk"}]\<newline>```'') =
     Inr (st\<lparr>todo_list := PList [PDict [(''task'', PStr ''Buy milk'')]], chat_response := None\<rparr>) \<and>
   normalize_item (PDict [(''task'', PStr ''Buy milk'')]) = PDict [(''task'', PStr ''Buy milk'')] \<and>
   description [(''task'', PStr ''Buy milk'')] = PStr ''Buy milk'' \<and>
   priority [(''task'', PStr ''Buy milk'')] = PStr ''Medium'' \<and>
   completed [(''task'', PStr ''Buy milk'')] = PBool False \<and>
   sub_tasks [(''task'', PStr ''Buy milk'')] = None\<close>
proof -
  from assms obtain deeper where d: "recursion_budget ip = Suc (Suc deeper)"
    by (metis Suc_le_D numeral_2_eq_2 Suc_le_mono)
  have r: \<open>json_response ''```json\<newline>[{"task":"Buy milk"}]\<newline>```'' = ''\<newline>[{"task":"Buy milk"}]\<newline>''\<close>
    by code_simp
  have \<open>json_loads ip ''\<newline>[{"task":"Buy milk"}]\<newline>'' =
      Inr (PList [PDict [(''task'', PStr ''Buy milk'')]])\<close>
    by (simp add: json_loads_def d skip_ws_def is_json_ws_def JSONArray.simps JSONObject.simps
        dict_of_pairs_def)
  with r show ?thesis
    by (simp add: main_submit_def description_def priority_def completed_def sub_tasks_def
        dict_get_def)
qed

theorem fenced_reply_witness:
  \<open>main_submit \<lparr>max_str_digits = 4300, recursion_budget = 900\<rparr> initialize_session_state
     (Some ''```json\<newline>[{"task":"Buy milk"}]\<newline>```'') =
     Inr \<lparr>todo_list = PList [PDict [(''task'', PStr ''Buy milk'')]], chat_response = None\<rparr>\<close>
  using fenced_reply [of \<open>\<lparr>max_str_digits = 4300, recursion_budget = 900\<rparr>\<close> initialize_session_state]
  by (simp add: initialize_session_state_def)

section \<open>Normalization\<close>

text \<open>
  Claim C5: normalizing twice is normalizing once, for every value, and a dict is returned
  as it is.
\<close>

theorem normalize_item_idempotent:
  "normalize_item (normalize_item x) = normalize_item x \<and> normalize_item (PDict item) = PDict item"
  by (cases x) simp_all

text \<open>
  Claim C9 says that a priority outside High, Medium and Low counts as Medium. The program
  reads \<^verbatim>\<open>item.get('priority', 'Medium')\<close> and compares it with nothing: the priority
  \<^verbatim>\<open>Urgent\<close> of a dict is read as \<^verbatim>\<open>Urgent\<close>.
\<close>

theorem unrecognized_priority_counterexample:
  "normalize_item (PDict [(''task'', PStr ''x''), (''priority'', PStr ''Urgent'')]) =
     PDict [(''task'', PStr ''x''), (''priority'', PStr ''Urgent'')] \<and>
   priority [(''task'', PStr ''x''), (''priority'', PStr ''Urgent'')] = PStr ''Urgent'' \<and>
   priority [(''task'', PStr ''x''), (''priority'', PStr ''Urgent'')] \<noteq> PStr ''Medium''"
  by (simp add: priority_def dict_get_def)

text \<open>
  Claim C9, as the program has it: a node without the field \<^verbatim>\<open>priority\<close> has the priority
  Medium, and so has the dict made from a bare string; a priority that is present is read
  as it stands, whatever it is.
\<close>

theorem priority_read:
  "(\<not> dict_has item ''priority'' \<longrightarrow> priority item = PStr ''Medium'') \<and>
   (\<forall>v. map_of item ''priority'' = Some v \<longrightarrow> priority item = v) \<and>
   (\<exists>item'. normalize_item (PStr s) = PDict item' \<and> priority item' = PStr ''Medium'')"
  by (auto simp: priority_def dict_get_def dict_has_def)

theorem priority_read_witness:
  "priority [(''task'', PStr ''x'')] = PStr ''Medium'' \<and>
   priority [(''task'', PStr ''x''), (''priority'', PStr ''Low'')] = PStr ''Low''"
  using priority_read [of "[(''task'', PStr ''x'')]"]
    priority_read [of "[(''task'', PStr ''x''), (''priority'', PStr ''Low'')]"]
  by (simp add: dict_has_def)

text \<open>
  Claim C3 says that the elements of the reply \<^verbatim>\<open>[1,2,3]\<close> are rendered as leaf nodes and
  that no input makes the normalization fail. The reply does replace the list (the
  interpreter having room for an array), but lines
  51-54 leave a number as it is, and line 57 calls \<^verbatim>\<open>item.get\<close> on it: the run ends with
  \<^verbatim>\<open>AttributeError\<close> at the first element, whatever the state of the widgets. A dict without
  \<^verbatim>\<open>task\<close> gets the default description at line 57 and \<^verbatim>\<open>KeyError\<close> at line 75.
\<close>

theorem scalar_items_raise:
  assumes "1 \<le> recursion_budget ip"
  shows "main_submit ip st (Some ''[1,2,3]'') =
     Inr (st\<lparr>todo_list := PList [PInt 1, PInt 2, PInt 3], chat_response := None\<rparr>) \<and>
   render_tasks u [PInt 1, PInt 2, PInt 3] 0 ''root'' =
     ([PInt 1, PInt 2, PInt 3], Raised AttributeError) \<and>
   snd (render_tasks u [PDict [(''priority'', PStr ''High'')]] 0 ''root'') = Raised KeyError"
proof -
  from assms obtain deeper where d: "recursion_budget ip = Suc deeper"
    by (metis Suc_le_D One_nat_def)
  have r: "json_response ''[1,2,3]'' = ''[1,2,3]''"
    by code_simp
  have "json_loads ip ''[1,2,3]'' = Inr (PList [PInt 1, PInt 2, PInt 3])"
    by (simp add: json_loads_def d skip_ws_def is_json_ws_def JSONArray.simps match_number_def
        match_integer_def match_frac_def match_exp_def is_digit_def parse_int_def
        int_of_literal_def int_of_digits_def digit_val_def Let_def)
  with r show ?thesis
    by (simp add: main_submit_def render_tasks_def Let_def dict_has_def)
qed

theorem scalar_items_raise_witness:
  "main_submit \<lparr>max_str_digits = 4300, recursion_budget = 900\<rparr> initialize_session_state
     (Some ''[1,2,3]'') =
     Inr \<lparr>todo_list = PList [PInt 1, PInt 2, PInt 3], chat_response = None\<rparr> \<and>
   render_tasks idle [PInt 1, PInt 2, PInt 3] 0 ''root'' =
     ([PInt 1, PInt 2, PInt 3], Raised AttributeError) \<and>
   snd (render_tasks idle [PDict [(''priority'', PStr ''High'')]] 0 ''root'') = Raised KeyError"
  using scalar_items_raise [of \<open>\<lparr>max_str_digits = 4300, recursion_budget = 900\<rparr>\<close>
      initialize_session_state idle]
  by (simp add: initialize_session_state_def)

section \<open>Counting, toggling, adding and deleting\<close>



text \<open>
  Claim C10: when a run has finished, a bare string found at a path in the stored forest is
  still that string, whatever its checkbox showed (line 69 wrote to the dict made from it,
  which is gone); where a dict was found, the stored dict now holds the state of its
  checkbox as \<^verbatim>\<open>completed\<close>.\<close>

theorem completed_write_frame:
  assumes "render_tasks u forest level parent_key = (forest', Finished n k)"
    and "node_at forest path = Some x"
  shows "(\<exists>s. x = PStr s \<and> node_at forest' path = Some (PStr s)) \<or>
         (\<exists>d d'. x = PDict d \<and> node_at forest' path = Some (PDict d') \<and>
            map_of d' ''completed'' =
              Some (PBool (checkbox u (''chk_'' @ path_key parent_key level path) (completed d))))"
proof -
  from assms(2) obtain j p where path: "path = j # p"
    by (cases path) auto
  from completed_write [OF assms(1) [unfolded render_tasks_def] assms(2) [unfolded path]] path
  show ?thesis by simp
qed

theorem completed_write_frame_witness:
  "render_tasks \<lparr>checkbox = (\<lambda>key v. True), text_input = (\<lambda>key. []), button = (\<lambda>key. False)\<rparr>
     [PStr ''a'', PDict [(''task'', PStr ''b''), (''completed'', PBool False)]] 0 ''root'' =
     ([PStr ''a'', PDict [(''task'', PStr ''b''), (''completed'', PBool True)]], Finished 2 2) \<and>
   node_at [PStr ''a'', PDict [(''task'', PStr ''b''), (''completed'', PBool True)]] [0] =
     Some (PStr ''a'') \<and>
   map_of [(''task'', PStr ''b''), (''completed'', PBool True)] ''completed'' = Some (PBool True)"
proof -
  let ?u = "\<lparr>checkbox = (\<lambda>key v. True), text_input = (\<lambda>key. []), button = (\<lambda>key. False)\<rparr>"
  let ?f = "[PStr ''a'', PDict [(''task'', PStr ''b''), (''completed'', PBool False)]]"
  let ?f' = "[PStr ''a'', PDict [(''task'', PStr ''b''), (''completed'', PBool True)]]"
  have r: "render_tasks ?u ?f 0 ''root'' = (?f', Finished 2 2)"
    by code_simp
  have a: "node_at ?f [0] = Some (PStr ''a'')"
    by simp
  from completed_write_frame [OF r a] r show ?thesis
    by simp
qed

text \<open>
  Adding a subtask to a node that is stored as a dict: in a task forest, pressing Add
  Subtask at the node at a path, with a text that is not blank, ends the run with
  \<^verbatim>\<open>st.rerun()\<close>, and the forest then holds at that path a dict with the former subtasks in
  their order, followed by exactly one new node with the trimmed text, priority Medium, not
  completed and without subtasks; its description and priority are as before. With a text
  that is blank after trimming the press does nothing, on any list: the run is the run in
  which no button is pressed.
\<close>

lemma add_subtask_dict:
  assumes "\<forall>key. button u key = (key = ''btn_add_sub_'' @ path_key parent_key level path)"
    and "py_strip (text_input u (''input_sub_'' @ path_key parent_key level path)) \<noteq> []"
    and "task_forest forest" and "node_at forest path = Some (PDict item)"
  shows "\<exists>forest' item'.
           render_tasks u forest level parent_key = (forest', Rerun) \<and>
           node_at forest' path = Some (PDict item') \<and>
           sub_tasks item' =
             Some (children (PDict item) @
               [PDict [(''task'',
                        PStr (py_strip (text_input u (''input_sub_'' @ path_key parent_key level path)))),
                       (''priority'', PStr ''Medium''), (''completed'', PBool False)]]) \<and>
           description item' = description item \<and> priority item' = priority item"
proof -
  from assms(4) obtain j p where path: "path = j # p"
    by (cases path) auto
  from render_add [of u parent_key level 0 j p forest "PDict item" 0 0] assms path
  show ?thesis
    by (auto simp: render_tasks_def new_subtask_def stored_def)
qed

lemma add_subtask_blank:
  assumes "\<forall>key. button u key = (key = ''btn_add_sub_'' @ path_key parent_key level path)"
    and "py_strip (text_input u (''input_sub_'' @ path_key parent_key level path)) = []"
  shows "render_tasks u forest level parent_key =
         render_tasks (u\<lparr>button := \<lambda>key. False\<rparr>) forest level parent_key"
proof -
  from assms(2) have
    "py_strip (text_input (u\<lparr>button := \<lambda>key. False\<rparr>)
       (''input_sub_'' @ path_key parent_key level path)) = []"
    by simp
  from render_blank_add [OF this, of u] assms(1)
  show ?thesis
    by (simp add: render_tasks_def)
qed

lemma node_at_below_string:
  "node_at forest path = Some (PStr s) \<Longrightarrow> node_at forest (path @ [k]) = None"
proof (induction forest path rule: node_at.induct)
  case (1 forest)
  then show ?case by simp
next
  case (2 forest i)
  then show ?case by (simp split: if_splits)
next
  case (3 forest i j p)
  then show ?case by (simp split: if_splits)
qed

text \<open>
  Claim C7 says that adding a subtask with a text that is not blank appends one node to the
  subtasks of every node. An entry of the list may be a bare string: lines 51-52 build a
  dict from it, line 85 appends the new subtask to that dict, and the dict is dropped when
  \<^verbatim>\<open>st.rerun()\<close> ends the run, for the list still holds the string. In a task forest,
  pressing Add Subtask at a node stored as a string, with a text that is not blank, ends
  the run with \<^verbatim>\<open>st.rerun()\<close> and leaves the string at its path, with no node below it: the
  subtask is lost.
\<close>

theorem add_subtask_lost_on_string:
  assumes "\<forall>key. button u key = (key = ''btn_add_sub_'' @ path_key parent_key level path)"
    and "py_strip (text_input u (''input_sub_'' @ path_key parent_key level path)) \<noteq> []"
    and "task_forest forest" and "node_at forest path = Some (PStr s)"
  shows "\<exists>forest'.
           render_tasks u forest level parent_key = (forest', Rerun) \<and>
           node_at forest' path = Some (PStr s) \<and>
           node_at forest' (path @ [0]) = None"
proof -
  from assms(4) obtain j p where path: "path = j # p"
    by (cases path) auto
  from render_add [of u parent_key level 0 j p forest "PStr s" 0 0] assms path
  obtain forest' where "render_tasks u forest level parent_key = (forest', Rerun)"
    and "node_at forest' path = Some (PStr s)"
    by (auto simp: render_tasks_def stored_def)
  with node_at_below_string [of forest' path s 0] show ?thesis
    by simp
qed

theorem add_subtask_lost_on_string_witness:
  "render_tasks (idle\<lparr>text_input := \<lambda>key. ''c'', button := \<lambda>key. key = ''btn_add_sub_root_0_0''\<rparr>)
     [PStr ''t''] 0 ''root'' = ([PStr ''t''], Rerun) \<and>
   render_tasks
     (idle\<lparr>text_input := \<lambda>key. ''c'', button := \<lambda>key. key = ''btn_add_sub_root_0_1''\<rparr>)
     [PStr ''s'', PDict [(''task'', PStr ''t''), (''sub_tasks'', PList [PStr ''a'', PStr ''b''])]]
     0 ''root'' =
     ([PStr ''s'',
       PDict [(''task'', PStr ''t''),
              (''sub_tasks'',
               PList [PStr ''a'', PStr ''b'',
                      PDict [(''task'', PStr ''c''), (''priority'', PStr ''Medium''),
                             (''completed'', PBool False)]]),
              (''completed'', PBool False)]],
      Rerun)"
proof -
  let ?u = "idle\<lparr>text_input := \<lambda>key. ''c'', button := \<lambda>key. key = ''btn_add_sub_root_0_0''\<rparr>"
  have key: "path_key ''root'' 0 [0] = ''root_0_0''"
    by code_simp
  have b: "\<forall>key. button ?u key = (key = ''btn_add_sub_'' @ path_key ''root'' 0 [0])"
    unfolding key by simp
  have t: "py_strip (text_input ?u (''input_sub_'' @ path_key ''root'' 0 [0])) \<noteq> []"
    by code_simp
  have tf: "task_forest [PStr ''t'']"
    by code_simp
  have at: "node_at [PStr ''t''] [0] = Some (PStr ''t'')"
    by simp
  have r: "render_tasks ?u [PStr ''t''] 0 ''root'' = ([PStr ''t''], Rerun)"
    by code_simp
  have d: "render_tasks
     (idle\<lparr>text_input := \<lambda>key. ''c'', button := \<lambda>key. key = ''btn_add_sub_root_0_1''\<rparr>)
     [PStr ''s'', PDict [(''task'', PStr ''t''), (''sub_tasks'', PList [PStr ''a'', PStr ''b''])]]
     0 ''root'' =
     ([PStr ''s'',
       PDict [(''task'', PStr ''t''),
              (''sub_tasks'',
               PList [PStr ''a'', PStr ''b'',
                      PDict [(''task'', PStr ''c''), (''priority'', PStr ''Medium''),
                             (''completed'', PBool False)]]),
              (''completed'', PBool False)]],
      Rerun)"
    by code_simp
  from add_subtask_lost_on_string [OF b t tf at] r d
  show ?thesis by simp
qed



end
